theory Spec2Isabelle
  imports Main "HOL-Library.Word" "HOL-Library.Multiset" "HOL-Library.Log_Nat"
begin

section \<open>Data model\<close>

text \<open>
  The join works on parallel arrays: \<open>std::vector<int>\<close> for the keys and the second
  payload column, \<open>std::vector<double>\<close> for the first payload column. An \<open>int\<close> is a
  32-bit word. The join only copies payload values, so a finite \<open>double\<close> is represented
  by the rational number it denotes; the arithmetic that the partition helpers perform on
  doubles is modelled separately below (\<open>to_double\<close>).

  C++ has undefined behaviour where the model has a \<open>fault\<close>: reading a vector past its
  end, signed integer overflow, converting a double that does not fit into an integer,
  and building a vector from an iterator range that is not inside the source vector.
\<close>

type_synonym int32 = "32 word"
type_synonym double = rat

datatype fault = OutOfBoundsRead | SignedOverflow | FloatToIntRange | BadIteratorRange

type_synonym 'd table = "int32 list \<times> 'd list \<times> int32 list"

section \<open>The join (main.cpp)\<close>

text \<open>
  \<open>std::find(keys2.begin(), keys2.end(), k)\<close>, as the distance of the returned iterator
  from \<open>keys2.begin()\<close>: the position of the first element equal to \<open>k\<close>, and the length
  of the vector (the position of \<open>keys2.end()\<close>) when there is none.
\<close>

fun std_find :: "'a list \<Rightarrow> 'a \<Rightarrow> nat" where
  "std_find [] k = 0"
| "std_find (x # xs) k = (if x = k then 0 else Suc (std_find xs k))"

text \<open>
  The loop \<open>for (const auto& k : keys1)\<close> of \<open>local_join_impl\<close>, with the three result
  vectors as the accumulator; \<open>push_back\<close> appends at the end. \<open>data0[index]\<close> and
  \<open>data1[index]\<close> are unchecked reads. The position \<open>p - keys2.begin()\<close> is stored in an
  \<open>int\<close>; the model keeps it as it is, which is exact for probe vectors of fewer than
  \<open>2\<^sup>3\<^sup>1\<close> elements.
\<close>

fun join_loop ::
  "int32 list \<Rightarrow> int32 list \<Rightarrow> 'd list \<Rightarrow> int32 list \<Rightarrow> 'd table \<Rightarrow> fault + 'd table" where
  "join_loop [] keys2 data0 data1 acc = Inr acc"
| "join_loop (k # ks) keys2 data0 data1 (keys_result, data0_result, data1_result) =
     (let p = std_find keys2 k in
      if p \<noteq> length keys2 then
        (let index = p in
         if index < length data0 \<and> index < length data1 then
           join_loop ks keys2 data0 data1
             (keys_result @ [keys2 ! p],
              data0_result @ [data0 ! index],
              data1_result @ [data1 ! index])
         else Inl OutOfBoundsRead)
      else join_loop ks keys2 data0 data1 (keys_result, data0_result, data1_result))"

definition local_join_impl ::
  "int32 list \<Rightarrow> int32 list \<Rightarrow> 'd list \<Rightarrow> int32 list \<Rightarrow> fault + 'd table" where
  "local_join_impl keys1 keys2 data0 data1 = join_loop keys1 keys2 data0 data1 ([], [], [])"

definition parallel_join_impl ::
  "int32 list \<Rightarrow> int32 list \<Rightarrow> 'd list \<Rightarrow> int32 list \<Rightarrow> fault + 'd table" where
  "parallel_join_impl keys1 keys2 data0 data1 = local_join_impl keys1 keys2 data0 data1"

text \<open>
  Every process of the run calls \<open>parallel_join_impl\<close> once, on its own chunks
  (\<open>main\<close>, line 124). A run with \<open>P\<close> participants is the list of the \<open>P\<close> calls,
  in rank order.
\<close>

type_synonym 'd chunks = "int32 list \<times> int32 list \<times> 'd list \<times> int32 list"

fun rank_join :: "'d chunks \<Rightarrow> fault + 'd table" where
  "rank_join (keys1, keys2, data0, data1) = parallel_join_impl keys1 keys2 data0 data1"

definition spmd_join :: "'d chunks list \<Rightarrow> (fault + 'd table) list" where
  "spmd_join inputs = map rank_join inputs"

text \<open>
  The rows of an output chunk, as \<open>main\<close> prints them: position \<open>i\<close> of the three
  vectors, for every position of the key vector. The rows of a whole run are the rows of
  all ranks; a fault on any rank is a fault of the run.
\<close>

fun table_rows :: "'d table \<Rightarrow> (int32 \<times> 'd \<times> int32) list" where
  "table_rows (ks, a, b) = zip ks (zip a b)"

fun global_rows :: "(fault + 'd table) list \<Rightarrow> fault + (int32 \<times> 'd \<times> int32) list" where
  "global_rows [] = Inr []"
| "global_rows (Inl f # outs) = Inl f"
| "global_rows (Inr t # outs) =
     (case global_rows outs of Inl f \<Rightarrow> Inl f | Inr rs \<Rightarrow> Inr (table_rows t @ rs))"

section \<open>Partition helpers and the example input (helpers.cpp)\<close>

text \<open>
  \<open>int64_t\<close> and \<open>int\<close> values are integers with their ranges made explicit; an
  arithmetic result outside the range of its type is signed overflow.
\<close>

definition in_int64 :: "int \<Rightarrow> bool" where
  "in_int64 x \<longleftrightarrow> - (2 ^ 63) \<le> x \<and> x < 2 ^ 63"

definition in_int32 :: "int \<Rightarrow> bool" where
  "in_int32 x \<longleftrightarrow> - (2 ^ 31) \<le> x \<and> x < 2 ^ 31"

text \<open>
  Double arithmetic (IEEE 754 binary64, round to nearest, ties to even). A finite double
  is the rational it denotes. \<open>binade x\<close> is the exponent \<open>e\<close> with
  \<open>2\<^sup>e \<le> x < 2\<^sup>e\<^sup>+\<^sup>1\<close> for positive \<open>x\<close>; the doubles of that binade are the multiples of
  \<open>2\<^sup>e\<^sup>-\<^sup>5\<^sup>2\<close> (53 significant bits), and \<open>to_double\<close> rounds to the nearest of
  them. The exponent range of binary64 is not modelled: the values rounded here are an
  \<open>int64_t\<close>, an \<open>int\<close>, and the quotient of the two, whose magnitude lies between
  \<open>2\<^sup>-\<^sup>3\<^sup>1\<close> and \<open>2\<^sup>6\<^sup>3\<close>, well inside the normal range.
\<close>

definition binade :: "rat \<Rightarrow> int" where
  "binade x =
     (let d = bitlen (fst (quotient_of x)) - bitlen (snd (quotient_of x))
      in if 2 powi d \<le> x then d else d - 1)"

definition round_half_even :: "rat \<Rightarrow> int" where
  "round_half_even y =
     (let f = \<lfloor>y\<rfloor> in
      if y - of_int f < 1 / 2 then f
      else if 1 / 2 < y - of_int f then f + 1
      else if even f then f else f + 1)"

definition to_double :: "rat \<Rightarrow> double" where
  "to_double x =
     (if x = 0 then 0
      else (let u = 2 powi (binade \<bar>x\<bar> - 52)
            in sgn x * (u * of_int (round_half_even (\<bar>x\<bar> / u)))))"

text \<open>
  \<open>(int64_t)ceil(total / ((double)num_pes))\<close>: \<open>total\<close> is converted to double, so
  is \<open>num_pes\<close>, the division is rounded, \<open>ceil\<close> is exact, and the conversion back
  to \<open>int64_t\<close> is undefined when the value does not fit. With \<open>num_pes = 0\<close> the
  quotient is an infinity or a NaN, which does not fit.
\<close>

definition div_chunk :: "int \<Rightarrow> int \<Rightarrow> fault + int" where
  "div_chunk total' num_pes =
     (if num_pes = 0 then Inl FloatToIntRange
      else (let c = \<lceil>to_double (to_double (of_int total') / to_double (of_int num_pes))\<rceil>
            in if in_int64 c then Inr c else Inl FloatToIntRange))"

text \<open>
  \<open>node_id * div_chunk\<close> is a 64-bit product; \<open>node_id + 1\<close> is a 32-bit sum.
\<close>

definition get_start :: "int \<Rightarrow> int \<Rightarrow> int \<Rightarrow> fault + int" where
  "get_start total' num_pes node_id =
     (case div_chunk total' num_pes of
        Inl f \<Rightarrow> Inl f
      | Inr chunk \<Rightarrow>
          if in_int64 (node_id * chunk) then Inr (min total' (node_id * chunk))
          else Inl SignedOverflow)"

definition get_end :: "int \<Rightarrow> int \<Rightarrow> int \<Rightarrow> fault + int" where
  "get_end total' num_pes node_id =
     (case div_chunk total' num_pes of
        Inl f \<Rightarrow> Inl f
      | Inr chunk \<Rightarrow>
          if in_int32 (node_id + 1) \<and> in_int64 ((node_id + 1) * chunk)
          then Inr (min total' ((node_id + 1) * chunk))
          else Inl SignedOverflow)"

definition get_node_portion :: "int \<Rightarrow> int \<Rightarrow> int \<Rightarrow> fault + int" where
  "get_node_portion total' num_pes node_id =
     (case get_end total' num_pes node_id of
        Inl f \<Rightarrow> Inl f
      | Inr e \<Rightarrow>
          (case get_start total' num_pes node_id of
             Inl f \<Rightarrow> Inl f
           | Inr s \<Rightarrow> if in_int64 (e - s) then Inr (e - s) else Inl SignedOverflow))"

text \<open>
  The vector built from the iterator pair \<open>(xs.begin() + s, xs.begin() + e)\<close>, which
  must lie inside \<open>xs\<close> with \<open>s \<le> e\<close>.
\<close>

definition vector_range :: "'a list \<Rightarrow> int \<Rightarrow> int \<Rightarrow> fault + 'a list" where
  "vector_range xs s e =
     (if 0 \<le> s \<and> s \<le> e \<and> e \<le> int (length xs)
      then Inr (take (nat (e - s)) (drop (nat s) xs))
      else Inl BadIteratorRange)"

text \<open>
  \<open>generate_example_inputs\<close> cuts each of its four global vectors in the same way: from
  \<open>get_start(size, n_pes, rank)\<close> to \<open>get_end(size, n_pes, rank)\<close>.
\<close>

definition rank_chunk :: "'a list \<Rightarrow> int \<Rightarrow> int \<Rightarrow> fault + 'a list" where
  "rank_chunk xs n_pes rank =
     (case get_start (int (length xs)) n_pes rank of
        Inl f \<Rightarrow> Inl f
      | Inr s \<Rightarrow>
          (case get_end (int (length xs)) n_pes rank of
             Inl f \<Rightarrow> Inl f
           | Inr e \<Rightarrow> vector_range xs s e))"

definition keys1_global :: "int32 list" where
  "keys1_global = [0, 1, 1, 2, 1, 0]"

definition keys2_global :: "int32 list" where
  "keys2_global = [1, 0, 4, 2, 5, 3]"

definition data0_global :: "double list" where
  "data0_global = [1, 2, 3, 4, 5, 6]"

definition data1_global :: "int32 list" where
  "data1_global = [4, 1, 2, 3, 0, 5]"

definition generate_example_inputs :: "int \<Rightarrow> int \<Rightarrow> fault + double chunks" where
  "generate_example_inputs rank n_pes =
     (case rank_chunk keys1_global n_pes rank of
        Inl f \<Rightarrow> Inl f
      | Inr keys1 \<Rightarrow>
     (case rank_chunk keys2_global n_pes rank of
        Inl f \<Rightarrow> Inl f
      | Inr keys2 \<Rightarrow>
     (case rank_chunk data0_global n_pes rank of
        Inl f \<Rightarrow> Inl f
      | Inr data0 \<Rightarrow>
     (case rank_chunk data1_global n_pes rank of
        Inl f \<Rightarrow> Inl f
      | Inr data1 \<Rightarrow> Inr (keys1, keys2, data0, data1)))))"

text \<open>
  \<open>main\<close> on one rank: the example input of the rank, then the join. The example run
  with \<open>n_pes\<close> participants is \<open>main\<close> on the ranks \<open>0 .. n_pes - 1\<close>.
\<close>

definition main_join :: "int \<Rightarrow> int \<Rightarrow> fault + double table" where
  "main_join rank n_pes =
     (case generate_example_inputs rank n_pes of
        Inl f \<Rightarrow> Inl f
      | Inr input \<Rightarrow> rank_join input)"

definition example_run :: "int \<Rightarrow> (fault + double table) list" where
  "example_run n_pes = map (\<lambda>r. main_join (int r) n_pes) [0..<nat n_pes]"

section \<open>Notions used to state the properties\<close>

text \<open>
  The probe positions that the loop of \<open>local_join_impl\<close> reads, one for each build key
  that occurs among the probe keys.
\<close>

definition hits :: "int32 list \<Rightarrow> int32 list \<Rightarrow> nat list" where
  "hits keys1 keys2 = map (std_find keys2) (filter (\<lambda>k. k \<in> set keys2) keys1)"

text \<open>
  The build-side positions with at least one match in the probe keys, in increasing order.
\<close>

definition matched_build_indices :: "int32 list \<Rightarrow> int32 list \<Rightarrow> nat list" where
  "matched_build_indices keys1 keys2 =
     filter (\<lambda>i. keys1 ! i \<in> set keys2) [0..<length keys1]"

text \<open>Index \<open>i\<close> lies in the interval \<open>[get_start, get_end)\<close> of rank \<open>node_id\<close>.\<close>

definition in_chunk :: "int \<Rightarrow> int \<Rightarrow> int \<Rightarrow> int \<Rightarrow> bool" where
  "in_chunk total' num_pes node_id i =
     (case get_start total' num_pes node_id of
        Inl f \<Rightarrow> False
      | Inr s \<Rightarrow>
          (case get_end total' num_pes node_id of
             Inl f \<Rightarrow> False
           | Inr e \<Rightarrow> s \<le> i \<and> i < e))"

text \<open>The exact ceiling \<open>\<lceil>total / P\<rceil>\<close> of the partition contract.\<close>

definition ceil_div :: "int \<Rightarrow> int \<Rightarrow> int" where
  "ceil_div total' P = \<lceil>rat_of_int total' / rat_of_int P\<rceil>"

section \<open>Properties of the join\<close>

lemma std_find_le: "std_find xs k \<le> length xs"
  by (induction xs) auto

lemma std_find_end_iff: "std_find xs k = length xs \<longleftrightarrow> k \<notin> set xs"
proof (induction xs)
  case Nil
  show ?case by simp
next
  case (Cons x xs)
  have "std_find xs k \<le> length xs" by (rule std_find_le)
  with Cons show ?case by auto
qed

lemma std_find_hit: "k \<in> set xs \<Longrightarrow> std_find xs k < length xs \<and> xs ! std_find xs k = k"
  by (induction xs) auto

lemma std_find_first: "j < std_find xs k \<Longrightarrow> xs ! j \<noteq> k"
proof (induction xs arbitrary: j)
  case Nil
  then show ?case by simp
next
  case (Cons x xs)
  then show ?case by (cases j) (auto split: if_splits)
qed

lemma join_loop_Inr:
  "list_all (\<lambda>j. j < length data0 \<and> j < length data1) (hits ks keys2) \<Longrightarrow>
   join_loop ks keys2 data0 data1 (kr, ar, br) =
     Inr (kr @ map ((!) keys2) (hits ks keys2),
          ar @ map ((!) data0) (hits ks keys2),
          br @ map ((!) data1) (hits ks keys2))"
proof (induction ks arbitrary: kr ar br)
  case Nil
  show ?case by (simp add: hits_def)
next
  case (Cons k ks)
  show ?case
  proof (cases "k \<in> set keys2")
    case True
    then have ne: "std_find keys2 k \<noteq> length keys2"
      by (simp add: std_find_end_iff)
    from True have h: "hits (k # ks) keys2 = std_find keys2 k # hits ks keys2"
      by (simp add: hits_def)
    from Cons.prems h have inb: "std_find keys2 k < length data0 \<and> std_find keys2 k < length data1"
      and rest: "list_all (\<lambda>j. j < length data0 \<and> j < length data1) (hits ks keys2)"
      by simp_all
    show ?thesis
      using ne inb Cons.IH [OF rest] by (simp add: h Let_def)
  next
    case False
    then have e: "std_find keys2 k = length keys2"
      by (simp add: std_find_end_iff)
    from False have h: "hits (k # ks) keys2 = hits ks keys2"
      by (simp add: hits_def)
    from Cons.prems h have rest: "list_all (\<lambda>j. j < length data0 \<and> j < length data1) (hits ks keys2)"
      by simp
    show ?thesis
      using e Cons.IH [OF rest] by (simp add: h)
  qed
qed

lemma join_loop_Inl:
  "\<not> list_all (\<lambda>j. j < length data0 \<and> j < length data1) (hits ks keys2) \<Longrightarrow>
   join_loop ks keys2 data0 data1 (kr, ar, br) = Inl OutOfBoundsRead"
proof (induction ks arbitrary: kr ar br)
  case Nil
  then show ?case by (simp add: hits_def)
next
  case (Cons k ks)
  show ?case
  proof (cases "k \<in> set keys2")
    case True
    then have ne: "std_find keys2 k \<noteq> length keys2"
      by (simp add: std_find_end_iff)
    from True have h: "hits (k # ks) keys2 = std_find keys2 k # hits ks keys2"
      by (simp add: hits_def)
    show ?thesis
    proof (cases "std_find keys2 k < length data0 \<and> std_find keys2 k < length data1")
      case True
      with Cons.prems h
      have "\<not> list_all (\<lambda>j. j < length data0 \<and> j < length data1) (hits ks keys2)"
        by simp
      from Cons.IH [OF this] ne True show ?thesis by (simp add: Let_def)
    next
      case False
      with ne show ?thesis by (auto simp add: Let_def)
    qed
  next
    case False
    then have e: "std_find keys2 k = length keys2"
      by (simp add: std_find_end_iff)
    from False have h: "hits (k # ks) keys2 = hits ks keys2"
      by (simp add: hits_def)
    from Cons.prems h
    have "\<not> list_all (\<lambda>j. j < length data0 \<and> j < length data1) (hits ks keys2)"
      by simp
    from Cons.IH [OF this] e show ?thesis by simp
  qed
qed

lemma hits_less: "j \<in> set (hits keys1 keys2) \<Longrightarrow> j < length keys2"
  by (auto simp add: hits_def std_find_hit)

lemma local_join_total:
  assumes "length keys2 \<le> length data0" and "length keys2 \<le> length data1"
  shows "local_join_impl keys1 keys2 data0 data1 =
     Inr (map ((!) keys2) (hits keys1 keys2),
          map ((!) data0) (hits keys1 keys2),
          map ((!) data1) (hits keys1 keys2))"
proof -
  have "list_all (\<lambda>j. j < length data0 \<and> j < length data1) (hits keys1 keys2)"
    unfolding list_all_iff using assms hits_less by fastforce
  from join_loop_Inr [OF this, of "[]" "[]" "[]"] show ?thesis
    by (simp add: local_join_impl_def)
qed

lemma local_join_cases:
  "local_join_impl keys1 keys2 data0 data1 =
     (if list_all (\<lambda>j. j < length data0 \<and> j < length data1) (hits keys1 keys2)
      then Inr (map ((!) keys2) (hits keys1 keys2),
                map ((!) data0) (hits keys1 keys2),
                map ((!) data1) (hits keys1 keys2))
      else Inl OutOfBoundsRead)"
  using join_loop_Inr [of data0 data1 keys1 keys2 "[]" "[]" "[]"]
    join_loop_Inl [of data0 data1 keys1 keys2 "[]" "[]" "[]"]
  by (simp add: local_join_impl_def)

text \<open>
  C9: \<open>parallel_join_impl\<close> returns exactly what \<open>local_join_impl\<close> returns on this rank's
  own chunks: nothing is routed or exchanged, and every key it emits occurs in this
  rank's build chunk and in this rank's probe chunk.
\<close>

theorem parallel_join_is_local:
  "parallel_join_impl keys1 keys2 data0 data1 = local_join_impl keys1 keys2 data0 data1 \<and>
   (\<forall>ks a b. parallel_join_impl keys1 keys2 data0 data1 = Inr (ks, a, b) \<longrightarrow>
      set ks \<subseteq> set keys1 \<inter> set keys2)"
proof -
  have "set (map ((!) keys2) (hits keys1 keys2)) \<subseteq> set keys1 \<inter> set keys2"
    by (auto simp add: hits_def std_find_hit)
  then show ?thesis
    by (auto simp add: parallel_join_impl_def local_join_cases split: if_splits)
qed

theorem parallel_join_is_local_witness:
  "parallel_join_impl [3, 7] [7, 9] [1 :: rat, 2] [5, 6] = Inr ([7], [1], [5]) \<and>
   set [7 :: int32] \<subseteq> set [3, 7] \<inter> set [7, 9]"
proof -
  have e: "parallel_join_impl [3, 7] [7, 9] [1 :: rat, 2] [5, 6] = Inr ([7], [1], [5])"
    by (simp add: parallel_join_impl_def local_join_impl_def)
  from parallel_join_is_local [of "[3, 7]" "[7, 9]" "[1 :: rat, 2]" "[5, 6]"] e
  show ?thesis by simp
qed

lemma filter_by_index:
  "filter P xs = map ((!) xs) (filter (\<lambda>i. P (xs ! i)) [0..<length xs])"
proof -
  have "filter P (map ((!) xs) [0..<length xs]) =
      map ((!) xs) (filter (P \<circ> (!) xs) [0..<length xs])"
    by (rule filter_map)
  then show ?thesis
    by (simp add: map_nth comp_def)
qed

lemma hits_by_index:
  "hits keys1 keys2 = map (\<lambda>i. std_find keys2 (keys1 ! i)) (matched_build_indices keys1 keys2)"
proof -
  have "filter (\<lambda>k. k \<in> set keys2) keys1 = map ((!) keys1) (matched_build_indices keys1 keys2)"
    unfolding matched_build_indices_def by (rule filter_by_index)
  then show ?thesis by (simp add: hits_def comp_def)
qed

lemma matched_build_indices_length:
  "length (matched_build_indices keys1 keys2) \<le> length keys1"
proof -
  have "length (matched_build_indices keys1 keys2) \<le> length [0..<length keys1]"
    unfolding matched_build_indices_def by (rule length_filter_le)
  then show ?thesis by simp
qed

lemma matched_build_indices_nth:
  assumes "n < length (matched_build_indices keys1 keys2)"
  shows "keys1 ! (matched_build_indices keys1 keys2 ! n) \<in> set keys2"
proof -
  from assms have "matched_build_indices keys1 keys2 ! n \<in> set (matched_build_indices keys1 keys2)"
    by (rule nth_mem)
  then show ?thesis by (simp add: matched_build_indices_def)
qed

text \<open>
  C10: \<open>local_join_impl\<close> emits at most one row for each build-side key occurrence. Its
  output has one row for each build position whose key occurs among the probe keys, in
  the order of those positions, and the row for build position \<open>i\<close> is
  \<open>(keys2[j], data0[j], data1[j])\<close> for the smallest \<open>j\<close> with \<open>keys2[j] = keys1[i]\<close>.
  The call returns whenever the payload vectors are at least as long as the probe keys.
\<close>

theorem local_join_first_match:
  "(length keys2 \<le> length data0 \<and> length keys2 \<le> length data1 \<longrightarrow>
      (\<exists>out. local_join_impl keys1 keys2 data0 data1 = Inr out)) \<and>
   (\<forall>ks a b. local_join_impl keys1 keys2 data0 data1 = Inr (ks, a, b) \<longrightarrow>
      length ks \<le> length keys1 \<and>
      length ks = length (matched_build_indices keys1 keys2) \<and>
      (\<forall>n < length (matched_build_indices keys1 keys2).
         \<exists>j < length keys2.
           keys2 ! j = keys1 ! (matched_build_indices keys1 keys2 ! n) \<and>
           (\<forall>j' < j. keys2 ! j' \<noteq> keys1 ! (matched_build_indices keys1 keys2 ! n)) \<and>
           ks ! n = keys2 ! j \<and> a ! n = data0 ! j \<and> b ! n = data1 ! j))"
proof (intro conjI allI impI)
  assume "length keys2 \<le> length data0 \<and> length keys2 \<le> length data1"
  then show "\<exists>out. local_join_impl keys1 keys2 data0 data1 = Inr out"
    using local_join_total [of keys2 data0 data1 keys1] by simp
next
  fix ks a b
  assume r: "local_join_impl keys1 keys2 data0 data1 = Inr (ks, a, b)"
  let ?is = "matched_build_indices keys1 keys2"
  let ?f = "\<lambda>i. std_find keys2 (keys1 ! i)"
  from r have ks: "ks = map ((!) keys2) (map ?f ?is)"
    and a: "a = map ((!) data0) (map ?f ?is)"
    and b: "b = map ((!) data1) (map ?f ?is)"
    by (simp_all add: local_join_cases hits_by_index split: if_splits)
  show len: "length ks = length ?is"
    by (simp add: ks)
  show "length ks \<le> length keys1"
    using len matched_build_indices_length [of keys1 keys2] by simp
  fix n
  assume n: "n < length ?is"
  let ?k = "keys1 ! (?is ! n)"
  from n have "?k \<in> set keys2"
    by (rule matched_build_indices_nth)
  then have hit: "std_find keys2 ?k < length keys2 \<and> keys2 ! std_find keys2 ?k = ?k"
    by (rule std_find_hit)
  have first: "\<forall>j' < std_find keys2 ?k. keys2 ! j' \<noteq> ?k"
    by (simp add: std_find_first)
  have "ks ! n = keys2 ! std_find keys2 ?k" "a ! n = data0 ! std_find keys2 ?k"
    "b ! n = data1 ! std_find keys2 ?k"
    using n by (simp_all add: ks a b)
  with hit first
  show "\<exists>j < length keys2. keys2 ! j = ?k \<and> (\<forall>j' < j. keys2 ! j' \<noteq> ?k) \<and>
      ks ! n = keys2 ! j \<and> a ! n = data0 ! j \<and> b ! n = data1 ! j"
    by blast
qed

theorem local_join_first_match_witness:
  "local_join_impl [4, 9, 4] [9, 4, 4] [1, 2, 3 :: rat] [5, 6, 7] = Inr ([4, 9, 4], [2, 1, 2], [6, 5, 6]) \<and>
   length [4, 9, 4 :: int32] \<le> length [4, 9, 4 :: int32] \<and>
   length [4, 9, 4 :: int32] = length (matched_build_indices [4, 9, 4] [9, 4, 4])"
proof -
  have e: "local_join_impl [4, 9, 4] [9, 4, 4] [1, 2, 3 :: rat] [5, 6, 7] =
      Inr ([4, 9, 4], [2, 1, 2], [6, 5, 6])"
    by (simp add: local_join_impl_def)
  from local_join_first_match [of "[9, 4, 4]" "[1, 2, 3 :: rat]" "[5, 6, 7]" "[4, 9, 4]"] e
  show ?thesis by simp
qed

text \<open>
  C8: whatever the input, the three vectors of a chunk that the join returns have the
  same length, and the join does return a chunk whenever the payload vectors are at
  least as long as the probe keys.
\<close>

theorem output_columns_same_length:
  "(length keys2 \<le> length data0 \<and> length keys2 \<le> length data1 \<longrightarrow>
      (\<exists>out. parallel_join_impl keys1 keys2 data0 data1 = Inr out)) \<and>
   (\<forall>ks a b. parallel_join_impl keys1 keys2 data0 data1 = Inr (ks, a, b) \<longrightarrow>
      length ks = length a \<and> length a = length b)"
proof (intro conjI allI impI)
  assume "length keys2 \<le> length data0 \<and> length keys2 \<le> length data1"
  then show "\<exists>out. parallel_join_impl keys1 keys2 data0 data1 = Inr out"
    using local_join_total [of keys2 data0 data1 keys1] by (simp add: parallel_join_impl_def)
next
  fix ks a b
  assume "parallel_join_impl keys1 keys2 data0 data1 = Inr (ks, a, b)"
  then have "ks = map ((!) keys2) (hits keys1 keys2) \<and> a = map ((!) data0) (hits keys1 keys2) \<and>
      b = map ((!) data1) (hits keys1 keys2)"
    by (simp add: parallel_join_impl_def local_join_cases split: if_splits)
  then show "length ks = length a" and "length a = length b"
    by simp_all
qed

theorem output_columns_same_length_witness:
  "parallel_join_impl [2, 8, 2] [8, 2] [1, 2 :: rat] [3, 4] = Inr ([2, 8, 2], [2, 1, 2], [4, 3, 4]) \<and>
   length [2, 8, 2 :: int32] = length [2, 1, 2 :: rat] \<and>
   length [2, 1, 2 :: rat] = length [4, 3, 4 :: int32]"
proof -
  have e: "parallel_join_impl [2, 8, 2] [8, 2] [1, 2 :: rat] [3, 4] =
      Inr ([2, 8, 2], [2, 1, 2], [4, 3, 4])"
    by (simp add: parallel_join_impl_def local_join_impl_def)
  from output_columns_same_length [of "[8, 2]" "[1, 2 :: rat]" "[3, 4]" "[2, 8, 2]"] e
  show ?thesis by simp
qed

section \<open>Double rounding of the chunk size\<close>

lemma bitlen_powi_bounds:
  assumes "0 < n"
  shows "2 powi (bitlen n - 1) \<le> (of_int n :: rat)" and "(of_int n :: rat) < 2 powi (bitlen n)"
proof -
  from assms have b1: "1 \<le> bitlen n"
    by (simp add: bitlen_alt_def)
  from bitlen_bounds [OF assms]
  have lo: "2 ^ nat (bitlen n - 1) \<le> n" and hi: "n < 2 ^ nat (bitlen n)"
    by simp_all
  from lo have "(of_int (2 ^ nat (bitlen n - 1)) :: rat) \<le> of_int n"
    by (simp only: of_int_le_iff)
  moreover have "(2::rat) powi (bitlen n - 1) = 2 ^ nat (bitlen n - 1)"
    using b1 by (simp add: power_int_def)
  ultimately show "2 powi (bitlen n - 1) \<le> (of_int n :: rat)"
    by simp
  from hi have "(of_int n :: rat) < of_int (2 ^ nat (bitlen n))"
    by (simp only: of_int_less_iff)
  moreover have "(2::rat) powi (bitlen n) = 2 ^ nat (bitlen n)"
    using b1 by (simp add: power_int_def)
  ultimately show "(of_int n :: rat) < 2 powi (bitlen n)"
    by simp
qed

lemma binade_bounds:
  assumes "0 < x"
  shows "2 powi binade x \<le> x" and "x < 2 powi (binade x + 1)"
proof -
  obtain a b where q: "quotient_of x = (a, b)"
    by (cases "quotient_of x")
  then have b: "0 < b" and x: "x = of_int a / of_int b"
    by (simp_all add: quotient_of_denom_pos quotient_of_div)
  from assms x b have a: "0 < a"
    by (simp add: zero_less_divide_iff)
  let ?d = "bitlen a - bitlen b"
  have bb: "(0::rat) < of_int b" using b by simp
  have up: "x < 2 powi (?d + 1)"
  proof -
    have "of_int a < (2::rat) powi (bitlen a)"
      by (rule bitlen_powi_bounds [OF a])
    also have "\<dots> = 2 powi (?d + 1) * 2 powi (bitlen b - 1)"
      by (simp add: power_int_add [symmetric])
    also have "\<dots> \<le> 2 powi (?d + 1) * of_int b"
      by (rule mult_left_mono [OF bitlen_powi_bounds(1) [OF b]]) simp
    finally have "of_int a / of_int b < (2::rat) powi (?d + 1)"
      using bb by (simp add: pos_divide_less_eq)
    then show ?thesis by (simp add: x)
  qed
  have low: "2 powi (?d - 1) < x"
  proof -
    have "(2::rat) powi (?d - 1) * of_int b < 2 powi (?d - 1) * 2 powi (bitlen b)"
      by (rule mult_strict_left_mono [OF bitlen_powi_bounds(2) [OF b]]) simp
    also have "\<dots> = 2 powi (bitlen a - 1)"
      by (simp add: power_int_add [symmetric])
    also have "\<dots> \<le> of_int a"
      by (rule bitlen_powi_bounds [OF a])
    finally have "(2::rat) powi (?d - 1) < of_int a / of_int b"
      using bb by (simp add: pos_less_divide_eq)
    then show ?thesis by (simp add: x)
  qed
  have bin: "binade x = (if 2 powi ?d \<le> x then ?d else ?d - 1)"
    by (simp add: binade_def q Let_def)
  show "2 powi binade x \<le> x"
    using low by (simp add: bin)
  show "x < 2 powi (binade x + 1)"
    using up by (simp add: bin)
qed

lemma round_half_even_of_int: "round_half_even (of_int n) = n"
  by (simp add: round_half_even_def)

lemma round_half_even_ge: "\<lfloor>y\<rfloor> \<le> round_half_even y"
  by (simp add: round_half_even_def Let_def)

lemma round_half_even_le: "round_half_even y \<le> \<lfloor>y\<rfloor> + 1"
  by (simp add: round_half_even_def Let_def)

lemma round_half_even_up: "1 / 2 < y - of_int \<lfloor>y\<rfloor> \<Longrightarrow> round_half_even y = \<lfloor>y\<rfloor> + 1"
  by (simp add: round_half_even_def Let_def)

lemma binade_unique:
  assumes "0 < x" and "2 powi e \<le> x" and "x < 2 powi (e + 1)"
  shows "binade x = e"
proof -
  have "2 powi binade x < (2::rat) powi (e + 1)"
    using binade_bounds(1) [OF assms(1)] assms(3) by simp
  then have "binade x < e + 1"
    using power_int_increasing [of "e + 1" "binade x" "2::rat"] by (cases "binade x < e + 1") simp_all
  moreover have "(2::rat) powi e < 2 powi (binade x + 1)"
    using binade_bounds(2) [OF assms(1)] assms(2) by simp
  then have "e < binade x + 1"
    using power_int_increasing [of "binade x + 1" e "2::rat"] by (cases "e < binade x + 1") simp_all
  ultimately show ?thesis by simp
qed


lemma to_double_pos:
  "0 < x \<Longrightarrow>
   to_double x = 2 powi (binade x - 52) * of_int (round_half_even (x / 2 powi (binade x - 52)))"
  by (simp add: to_double_def Let_def)

lemma to_double_on_grid:
  assumes "0 < x" and "x / 2 powi (binade x - 52) = of_int m"
  shows "to_double x = x"
proof -
  let ?u = "(2::rat) powi (binade x - 52)"
  have u: "0 < ?u" by (simp add: zero_less_power_int)
  from assms(1) have "to_double x = ?u * of_int (round_half_even (x / ?u))"
    by (simp add: to_double_def Let_def)
  also have "\<dots> = ?u * (x / ?u)"
    by (simp only: assms(2) round_half_even_of_int)
  also have "\<dots> = x"
    using u by simp
  finally show ?thesis .
qed

lemma to_double_of_int_exact:
  assumes "0 \<le> n" and "n \<le> 2 ^ 53"
  shows "to_double (of_int n) = of_int n"
proof (cases "n = 0")
  case True
  then show ?thesis by (simp add: to_double_def)
next
  case False
  with assms have n: "0 < n" by simp
  let ?x = "of_int n :: rat"
  let ?e = "binade ?x"
  have x: "0 < ?x" using n by simp
  have lo: "2 powi ?e \<le> ?x" and hi: "?x < 2 powi (?e + 1)"
    using binade_bounds [OF x] by simp_all
  have e53: "?e \<le> 53"
  proof (rule ccontr)
    assume "\<not> ?e \<le> 53"
    then have "(2::rat) powi 54 \<le> 2 powi ?e"
      by (intro power_int_increasing) simp_all
    with lo have "(2::rat) powi 54 \<le> of_int n" by simp
    moreover have "(of_int n :: rat) \<le> of_int (2 ^ 53)"
      using assms(2) by (simp only: of_int_le_iff)
    ultimately show False by simp
  qed
  show ?thesis
  proof (cases "?e \<le> 52")
    case True
    define k where "k = nat (52 - ?e)"
    have "?e - 52 = - int k" using True by (simp add: k_def)
    then have "(2::rat) powi (?e - 52) = 1 / 2 ^ k"
      by (simp add: power_int_minus_divide)
    then have "?x / 2 powi (?e - 52) = of_int (n * 2 ^ k)"
      by simp
    from to_double_on_grid [OF x this] show ?thesis .
  next
    case False
    with e53 have e: "?e = 53" by simp
    from lo e have "(2::rat) ^ 53 \<le> of_int n" by simp
    then have "(of_int (2 ^ 53) :: rat) \<le> of_int n" by simp
    then have "(2::int) ^ 53 \<le> n" by (simp only: of_int_le_iff)
    with assms(2) have n53: "n = 2 ^ 53" by simp
    have "?x / 2 powi (?e - 52) = ?x / 2"
      unfolding e by simp
    also have "\<dots> = of_int (2 ^ 52)"
      by (simp add: n53)
    finally have "?x / 2 powi (?e - 52) = of_int (2 ^ 52)" .
    from to_double_on_grid [OF x this] show ?thesis .
  qed
qed


lemma to_double_quotient_ceiling:
  assumes t: "0 < t" "t \<le> 2 ^ 53" and P: "0 < P"
  shows "\<lceil>to_double (of_int t / of_int P)\<rceil> = \<lceil>of_int t / of_int P :: rat\<rceil>"
proof (cases "P dvd t")
  case True
  then obtain m where m: "t = P * m" ..
  with t P have m0: "0 < m"
    by (simp add: zero_less_mult_iff)
  have "m \<le> P * m" using P m0 by simp
  with m t have m53: "m \<le> 2 ^ 53" by simp
  have "(of_int t / of_int P :: rat) = of_int m"
    using P by (simp add: m)
  moreover have "to_double (of_int m) = of_int m"
    using m0 m53 by (intro to_double_of_int_exact) simp_all
  ultimately show ?thesis by simp
next
  case False
  define x :: rat where "x = of_int t / of_int P"
  define e where "e = binade x"
  define q where "q = t div P"
  define r where "r = t mod P"
  have Pr: "(0::rat) < of_int P" using P by simp
  have x0: "0 < x" using t P by (simp add: x_def)
  have r0: "0 \<le> r" unfolding r_def using P by simp
  have "r \<noteq> 0" unfolding r_def using False by (simp add: dvd_eq_mod_eq_0)
  with r0 have r1: "1 \<le> r" by simp
  have tqr: "t = q * P + r"
    by (simp add: q_def r_def)
  have xq: "x = of_int q + of_int r / of_int P"
    using Pr by (simp add: x_def tqr field_simps)
  have rP: "r < P" unfolding r_def using P by simp
  have q_lt: "of_int q < x"
    using r1 Pr by (simp add: xq)
  have x_lt: "x < of_int q + 1"
    using rP Pr by (simp add: xq)
  have P2: "2 \<le> P"
  proof (rule ccontr)
    assume "\<not> 2 \<le> P"
    with P have "P = 1" by simp
    with False show False by simp
  qed
  have lo: "2 powi e \<le> x" and hi: "x < 2 powi (e + 1)"
    using binade_bounds [OF x0] by (simp_all add: e_def)
  have t53: "(of_int t :: rat) \<le> 2 ^ 53"
  proof -
    have "of_int t \<le> (of_int (2 ^ 53) :: rat)"
      using t by (simp only: of_int_le_iff)
    then show ?thesis by simp
  qed
  have x52: "x \<le> 2 ^ 52"
  proof -
    have "(2::rat) ^ 53 = 2 ^ 52 * 2" by simp
    also have "\<dots> \<le> 2 ^ 52 * of_int P"
      using P2 by (intro mult_left_mono) simp_all
    finally have "of_int t \<le> (2::rat) ^ 52 * of_int P"
      using t53 by simp
    then show ?thesis using Pr by (simp add: x_def pos_divide_le_eq)
  qed
  have e52: "e \<le> 52"
  proof (rule ccontr)
    assume "\<not> e \<le> 52"
    then have "(2::rat) powi 53 \<le> 2 powi e"
      by (intro power_int_increasing) simp_all
    with lo x52 show False by simp
  qed
  define k where "k = nat (52 - e)"
  define N where "N = (2::int) ^ k"
  have N0: "0 < N" by (simp add: N_def)
  have Nr: "(0::rat) < of_int N" using N0 by simp
  have "e - 52 = - int k" using e52 by (simp add: k_def)
  then have u: "(2::rat) powi (e - 52) = 1 / of_int N"
    by (simp add: power_int_minus_divide N_def)
  define y where "y = x * of_int N"
  have td: "to_double x = of_int (round_half_even y) / of_int N"
    unfolding to_double_pos [OF x0] e_def [symmetric] u y_def by simp
  have y_gt: "of_int (q * N) < y"
    unfolding y_def using mult_strict_right_mono [OF q_lt Nr] by (simp only: of_int_mult)
  have y_lt: "y < of_int ((q + 1) * N)"
    unfolding y_def using mult_strict_right_mono [OF x_lt Nr]
    by (simp only: of_int_mult of_int_add of_int_1)
  have fl_lo: "q * N \<le> \<lfloor>y\<rfloor>"
    using less_imp_le [OF y_gt] by (simp only: le_floor_iff)
  have fl_hi: "\<lfloor>y\<rfloor> + 1 \<le> (q + 1) * N"
  proof -
    from y_lt have "\<lfloor>y\<rfloor> < (q + 1) * N"
      by (simp only: floor_less_iff)
    then show ?thesis by simp
  qed
  have up: "round_half_even y \<le> (q + 1) * N"
    using round_half_even_le [of y] fl_hi by simp
  have yq: "y - of_int (q * N) = of_int r * of_int N / of_int P"
    by (simp add: y_def xq algebra_simps add_divide_distrib)
  have down: "q * N < round_half_even y"
  proof (cases "q * N < \<lfloor>y\<rfloor>")
    case True
    with round_half_even_ge [of y] show ?thesis by simp
  next
    case False
    with fl_lo have fl: "\<lfloor>y\<rfloor> = q * N" by simp
    have frac: "y - of_int \<lfloor>y\<rfloor> = of_int r * of_int N / of_int P"
      by (simp only: fl yq)
    have frac_pos: "0 < y - of_int \<lfloor>y\<rfloor>"
      unfolding fl using y_gt by simp
    have PN: "of_int P < 2 * (of_int N :: rat)"
    proof (rule ccontr)
      assume "\<not> of_int P < 2 * (of_int N :: rat)"
      then have ge: "2 * (of_int N :: rat) \<le> of_int P" by simp
      have e_pos: "(0::rat) < 2 powi e" by (simp add: zero_less_power_int)
      have pw: "2 * (of_int N :: rat) * 2 powi e = 2 ^ 53"
      proof -
        have "53 - e = int (Suc k)" using e52 by (simp add: k_def)
        then have "(2::rat) powi (53 - e) = 2 ^ Suc k"
          by (simp only: power_int_of_nat)
        then have "2 * (of_int N :: rat) = 2 powi (53 - e)"
          by (simp add: N_def)
        then have "2 * (of_int N :: rat) * 2 powi e = 2 powi (53 - e) * 2 powi e"
          by simp
        also have "\<dots> = 2 powi (53 - e + e)"
          by (rule power_int_add [symmetric]) simp
        also have "\<dots> = 2 ^ 53"
          by simp
        finally show ?thesis .
      qed
      have "of_int P * 2 powi e \<le> of_int P * x"
        using lo Pr by (intro mult_left_mono) simp_all
      also have "of_int P * x = of_int t"
        using Pr by (simp add: x_def)
      finally have a: "of_int P * 2 powi e \<le> (of_int t :: rat)" .
      have b: "2 * (of_int N :: rat) * 2 powi e \<le> of_int P * 2 powi e"
        using ge e_pos by (intro mult_right_mono) simp_all
      from a b t53 pw have "of_int P * 2 powi e = (of_int t :: rat)" and "(of_int t :: rat) = 2 ^ 53"
        by simp_all
      then have "of_int P * 2 powi e = of_int P * x" and tt: "(of_int t :: rat) = 2 ^ 53"
        using Pr by (simp_all add: x_def)
      with Pr have x_eq: "x = 2 powi e" by simp
      have "y = (2 * of_int N * 2 powi e) / 2"
        by (simp add: y_def x_eq)
      also have "\<dots> = of_int (2 ^ 52)" by (simp only: pw) simp
      finally have "y = of_int (2 ^ 52)" .
      then have "y - of_int \<lfloor>y\<rfloor> = 0" by simp
      with frac_pos show False by simp
    qed
    have "1 / 2 < (of_int N :: rat) / of_int P"
      using PN Pr by (simp add: pos_less_divide_eq)
    also have "\<dots> \<le> of_int r * of_int N / of_int P"
    proof -
      have "1 * (of_int N :: rat) \<le> of_int r * of_int N"
        using r1 Nr by (intro mult_right_mono) simp_all
      then show ?thesis using Pr by (simp add: divide_right_mono)
    qed
    finally have "1 / 2 < y - of_int \<lfloor>y\<rfloor>"
      by (simp only: frac)
    then have "round_half_even y = \<lfloor>y\<rfloor> + 1"
      by (rule round_half_even_up)
    with fl show ?thesis by simp
  qed
  have d_gt: "of_int (q + 1) - 1 < to_double x"
  proof -
    from down have "(of_int (q * N) :: rat) < of_int (round_half_even y)"
      by (simp only: of_int_less_iff)
    then show ?thesis using Nr by (simp add: td pos_less_divide_eq)
  qed
  have d_le: "to_double x \<le> of_int (q + 1)"
  proof -
    from up have "(of_int (round_half_even y) :: rat) \<le> of_int ((q + 1) * N)"
      by (simp only: of_int_le_iff)
    then show ?thesis using Nr by (simp add: td pos_divide_le_eq)
  qed
  have "\<lceil>to_double x\<rceil> = q + 1"
    using d_gt d_le by (rule ceiling_unique)
  moreover have "\<lceil>x\<rceil> = q + 1"
    using q_lt x_lt by (intro ceiling_unique) simp_all
  ultimately show ?thesis by (simp add: x_def)
qed

lemma ceil_div_bounds:
  assumes "0 \<le> t" and "1 \<le> P"
  shows "0 \<le> ceil_div t P" and "t \<le> P * ceil_div t P" and "P * ceil_div t P < t + P"
    and "ceil_div t P \<le> t"
proof -
  let ?x = "rat_of_int t / rat_of_int P"
  have Pr: "(0::rat) < of_int P" using assms(2) by simp
  have x0: "0 \<le> ?x" using assms by simp
  then show "0 \<le> ceil_div t P"
    by (simp add: ceil_div_def)
  have "?x \<le> of_int (ceil_div t P)"
    unfolding ceil_div_def by (rule le_of_int_ceiling)
  then have "rat_of_int t \<le> of_int (ceil_div t P) * of_int P"
    using Pr by (simp add: pos_divide_le_eq)
  then have "rat_of_int t \<le> of_int (P * ceil_div t P)"
    by (simp add: mult.commute)
  then show "t \<le> P * ceil_div t P"
    by (simp only: of_int_le_iff)
  have "of_int (ceil_div t P) < ?x + 1"
    unfolding ceil_div_def using ceiling_correct [of ?x] by simp
  then have "of_int (ceil_div t P) * of_int P < (?x + 1) * of_int P"
    using Pr by (rule mult_strict_right_mono)
  also have "\<dots> = of_int (t + P)"
    using Pr by (simp add: algebra_simps)
  finally have "rat_of_int (P * ceil_div t P) < of_int (t + P)"
    by (simp add: mult.commute)
  then show "P * ceil_div t P < t + P"
    by (simp only: of_int_less_iff)
  have "?x \<le> of_int t"
  proof -
    have "rat_of_int t * 1 \<le> of_int t * of_int P"
      using assms by (intro mult_left_mono) simp_all
    then show ?thesis using Pr by (simp add: pos_divide_le_eq)
  qed
  then show "ceil_div t P \<le> t"
    by (simp add: ceil_div_def ceiling_le_iff)
qed

lemma div_chunk_exact:
  assumes "0 \<le> t" and "t \<le> 2 ^ 53" and "1 \<le> P" and "P < 2 ^ 31"
  shows "div_chunk t P = Inr (ceil_div t P)"
proof -
  have tt: "to_double (of_int t) = of_int t"
    using assms(1,2) by (rule to_double_of_int_exact)
  have PP: "to_double (of_int P) = of_int P"
    using assms(3,4) by (intro to_double_of_int_exact) simp_all
  have c: "\<lceil>to_double (of_int t / of_int P)\<rceil> = ceil_div t P"
  proof (cases "t = 0")
    case True
    then show ?thesis by (simp add: to_double_def ceil_div_def)
  next
    case False
    with assms(1) have "0 < t" by simp
    moreover from assms(3) have "0 < P" by simp
    ultimately show ?thesis
      using assms(2) unfolding ceil_div_def by (intro to_double_quotient_ceiling)
  qed
  have "0 \<le> ceil_div t P" and "ceil_div t P \<le> t"
    using ceil_div_bounds [OF assms(1,3)] by simp_all
  with assms(2) have "in_int64 (ceil_div t P)"
    by (simp add: in_int64_def)
  with assms(3) show ?thesis
    by (simp add: div_chunk_def tt PP c)
qed

lemma rank_times_chunk:
  assumes "0 \<le> t" and "t \<le> 2 ^ 53" and "1 \<le> P" and "P < 2 ^ 31" and "0 \<le> r" and "r \<le> P"
  shows "in_int64 (r * ceil_div t P)"
proof -
  have c0: "0 \<le> ceil_div t P" and up: "P * ceil_div t P < t + P"
    using ceil_div_bounds [OF assms(1,3)] by simp_all
  have "r * ceil_div t P \<le> P * ceil_div t P"
    using assms(6) c0 by (rule mult_right_mono)
  with up assms(2,4) have "r * ceil_div t P < 2 ^ 63" by simp
  moreover have "0 \<le> r * ceil_div t P"
    using assms(5) c0 by simp
  ultimately show ?thesis by (simp add: in_int64_def)
qed

lemma get_start_exact:
  assumes "0 \<le> t" and "t \<le> 2 ^ 53" and "1 \<le> P" and "P < 2 ^ 31" and "0 \<le> r" and "r < P"
  shows "get_start t P r = Inr (min t (r * ceil_div t P))"
proof -
  have "in_int64 (r * ceil_div t P)"
    using assms by (intro rank_times_chunk) simp_all
  then show ?thesis
    by (simp add: get_start_def div_chunk_exact [OF assms(1-4)])
qed

lemma get_end_exact:
  assumes "0 \<le> t" and "t \<le> 2 ^ 53" and "1 \<le> P" and "P < 2 ^ 31" and "0 \<le> r" and "r < P"
  shows "get_end t P r = Inr (min t ((r + 1) * ceil_div t P))"
proof -
  have "in_int64 ((r + 1) * ceil_div t P)"
    using assms by (intro rank_times_chunk) simp_all
  moreover have "in_int32 (r + 1)"
    using assms by (simp add: in_int32_def)
  ultimately show ?thesis
    by (simp add: get_end_def div_chunk_exact [OF assms(1-4)])
qed

lemma get_node_portion_exact:
  assumes "0 \<le> t" and "t \<le> 2 ^ 53" and "1 \<le> P" and "P < 2 ^ 31" and "0 \<le> r" and "r < P"
  shows "get_node_portion t P r =
    Inr (min t ((r + 1) * ceil_div t P) - min t (r * ceil_div t P))"
proof -
  have c0: "0 \<le> ceil_div t P"
    using ceil_div_bounds [OF assms(1,3)] by simp
  have a: "0 \<le> min t (r * ceil_div t P)"
    using assms(1,5) c0 by simp
  have b: "min t (r * ceil_div t P) \<le> min t ((r + 1) * ceil_div t P)"
    using c0 by (simp add: algebra_simps min_def)
  define s where "s = min t (r * ceil_div t P)"
  define e where "e = min t ((r + 1) * ceil_div t P)"
  have "e \<le> t" by (simp add: e_def)
  with a b assms(2) have "- (2 ^ 63) \<le> e - s \<and> e - s < 2 ^ 63"
    unfolding s_def [symmetric] e_def [symmetric] by simp
  then have "in_int64 (min t ((r + 1) * ceil_div t P) - min t (r * ceil_div t P))"
    by (simp add: in_int64_def s_def e_def)
  then show ?thesis
    by (simp add: get_node_portion_def get_start_exact [OF assms] get_end_exact [OF assms])
qed

lemma interval_owner:
  fixes c i r :: int
  assumes "0 < c"
  shows "(r * c \<le> i \<and> i < (r + 1) * c) \<longleftrightarrow> r = i div c"
proof
  assume a: "r * c \<le> i \<and> i < (r + 1) * c"
  have "i div c = r"
  proof (rule int_div_pos_eq)
    show "i = c * r + (i - r * c)" by simp
    show "0 \<le> i - r * c" using a by simp
    show "i - r * c < c" using a by (simp add: algebra_simps)
  qed
  then show "r = i div c" by simp
next
  assume r: "r = i div c"
  have "i = (i div c) * c + i mod c" by simp
  moreover have "0 \<le> i mod c" and "i mod c < c"
    using assms by simp_all
  ultimately have "(i div c) * c \<le> i" and "i < (i div c) * c + c"
    by linarith+
  then show "r * c \<le> i \<and> i < (r + 1) * c"
    by (simp add: r algebra_simps)
qed

lemma in_chunk_exact:
  assumes "0 \<le> t" and "t \<le> 2 ^ 53" and "1 \<le> P" and "P < 2 ^ 31" and "0 \<le> r" and "r < P"
  shows "in_chunk t P r i \<longleftrightarrow>
    min t (r * ceil_div t P) \<le> i \<and> i < min t ((r + 1) * ceil_div t P)"
  by (simp add: in_chunk_def get_start_exact [OF assms] get_end_exact [OF assms])

text \<open>
  C5 (as amended): for \<open>0 \<le> total \<le> 2\<^sup>5\<^sup>3\<close>, a participant count \<open>P \<ge> 1\<close> (an
  \<open>int\<close>) and a rank \<open>0 \<le> r < P\<close>, the three helpers return without overflow,
  \<open>get_start\<close> is \<open>min(total, r * \<lceil>total/P\<rceil>)\<close>, \<open>get_end\<close> is
  \<open>min(total, (r+1) * \<lceil>total/P\<rceil>)\<close> with the exact ceiling, and \<open>get_node_portion\<close> is
  their difference.
\<close>

theorem partition_contract_up_to_2_53:
  assumes "0 \<le> total'" and "total' \<le> 2 ^ 53" and "1 \<le> P" and "P < 2 ^ 31"
    and "0 \<le> r" and "r < P"
  shows "get_start total' P r = Inr (min total' (r * ceil_div total' P)) \<and>
    get_end total' P r = Inr (min total' ((r + 1) * ceil_div total' P)) \<and>
    get_node_portion total' P r =
      Inr (min total' ((r + 1) * ceil_div total' P) - min total' (r * ceil_div total' P))"
  using get_start_exact [OF assms] get_end_exact [OF assms] get_node_portion_exact [OF assms]
  by simp

theorem partition_contract_up_to_2_53_witness:
  "(0::int) \<le> 7 \<and> (7::int) \<le> 2 ^ 53 \<and> (1::int) \<le> 3 \<and> (3::int) < 2 ^ 31 \<and> (0::int) \<le> 2 \<and> (2::int) < 3 \<and>
   get_start 7 3 2 = Inr 6 \<and> get_end 7 3 2 = Inr 7 \<and> get_node_portion 7 3 2 = Inr 1"
proof -
  have c: "ceil_div 7 3 = 3"
    by code_simp
  from partition_contract_up_to_2_53 [of 7 3 2] show ?thesis
    by (simp add: c)
qed

text \<open>
  Above \<open>2\<^sup>5\<^sup>3\<close> the conversion of \<open>total\<close> to double loses bits: with
  \<open>total = 2\<^sup>5\<^sup>3 + 1\<close> on a single rank, \<open>get_end\<close> is \<open>2\<^sup>5\<^sup>3\<close>, not \<open>total\<close>.
\<close>

theorem partition_contract_counterexample:
  "get_end (2 ^ 53 + 1) 1 0 = Inr (2 ^ 53) \<and>
   min (2 ^ 53 + 1) ((0 + 1) * ceil_div (2 ^ 53 + 1) 1) = 2 ^ 53 + 1 \<and>
   get_node_portion (2 ^ 53 + 1) 1 0 = Inr (2 ^ 53)"
  by code_simp

text \<open>
  C4 (as amended): for \<open>0 \<le> total \<le> 2\<^sup>5\<^sup>3\<close> and \<open>P \<ge> 1\<close>, the intervals
  \<open>[get_start, get_end)\<close> of the ranks \<open>0 .. P - 1\<close> start at 0, end at \<open>total\<close>, each
  begins where the previous one ends, and every index of \<open>[0, total)\<close> lies in the
  interval of exactly one rank; no interval reaches outside \<open>[0, total)\<close>. Nothing is
  assumed about \<open>total < P\<close> or about divisibility.
\<close>

theorem partition_geometry_up_to_2_53:
  assumes "0 \<le> total'" and "total' \<le> 2 ^ 53" and "1 \<le> P" and "P < 2 ^ 31"
  shows "get_start total' P 0 = Inr 0 \<and>
    get_end total' P (P - 1) = Inr total' \<and>
    (\<forall>r. 0 \<le> r \<and> r < P \<longrightarrow>
       (\<exists>s e. get_start total' P r = Inr s \<and> get_end total' P r = Inr e \<and> 0 \<le> s \<and> s \<le> e \<and> e \<le> total')) \<and>
    (\<forall>r. 0 \<le> r \<and> r + 1 < P \<longrightarrow> get_start total' P (r + 1) = get_end total' P r) \<and>
    (\<forall>i. 0 \<le> i \<and> i < total' \<longrightarrow> (\<exists>!r. 0 \<le> r \<and> r < P \<and> in_chunk total' P r i)) \<and>
    (\<forall>r i. 0 \<le> r \<and> r < P \<and> in_chunk total' P r i \<longrightarrow> 0 \<le> i \<and> i < total')"
proof -
  note A = assms
  define c where "c = ceil_div total' P"
  have c0: "0 \<le> c" and cover: "total' \<le> P * c"
    using ceil_div_bounds [OF A(1) A(3)] by (simp_all add: c_def)
  have st: "get_start total' P r = Inr (min total' (r * c))" if "0 \<le> r" "r < P" for r
    unfolding c_def using A that by (rule get_start_exact)
  have en: "get_end total' P r = Inr (min total' ((r + 1) * c))" if "0 \<le> r" "r < P" for r
    unfolding c_def using A that by (rule get_end_exact)
  have ic: "in_chunk total' P r i \<longleftrightarrow> min total' (r * c) \<le> i \<and> i < min total' ((r + 1) * c)"
    if "0 \<le> r" "r < P" for r i
    unfolding c_def using A that by (rule in_chunk_exact)
  have first: "get_start total' P 0 = Inr 0"
    using st [of 0] A by simp
  have last: "get_end total' P (P - 1) = Inr total'"
    using en [of "P - 1"] A cover by (simp add: mult.commute)
  have each: "\<exists>s e. get_start total' P r = Inr s \<and> get_end total' P r = Inr e \<and>
      0 \<le> s \<and> s \<le> e \<and> e \<le> total'" if "0 \<le> r \<and> r < P" for r
  proof -
    have "0 \<le> r * c" using that c0 by simp
    moreover have "r * c \<le> (r + 1) * c" using c0 by (simp add: algebra_simps)
    ultimately show ?thesis
      using st [of r] en [of r] that A(1) by (simp add: min_def)
  qed
  have contiguous: "get_start total' P (r + 1) = get_end total' P r" if "0 \<le> r \<and> r + 1 < P" for r
    using st [of "r + 1"] en [of r] that by simp
  have owner: "\<exists>!r. 0 \<le> r \<and> r < P \<and> in_chunk total' P r i" if i: "0 \<le> i \<and> i < total'" for i
  proof -
    have cpos: "0 < c"
    proof (rule ccontr)
      assume "\<not> 0 < c"
      with c0 have "c = 0" by simp
      with cover i show False by simp
    qed
    have iff: "in_chunk total' P r i \<longleftrightarrow> r = i div c" if "0 \<le> r" "r < P" for r
    proof -
      have "in_chunk total' P r i \<longleftrightarrow> r * c \<le> i \<and> i < (r + 1) * c"
        using ic [OF that, of i] i by (simp add: min_def)
      then show ?thesis by (simp only: interval_owner [OF cpos])
    qed
    have d0: "0 \<le> i div c"
      using i cpos by (simp add: pos_imp_zdiv_nonneg_iff)
    have dP: "i div c < P"
    proof (rule ccontr)
      assume "\<not> i div c < P"
      then have "P * c \<le> (i div c) * c"
        using cpos by (intro mult_right_mono) simp_all
      also have "\<dots> \<le> i"
        using interval_owner [OF cpos, of "i div c" i] by simp
      finally show False using cover i by simp
    qed
    show ?thesis
    proof (rule ex1I [of _ "i div c"])
      show "0 \<le> i div c \<and> i div c < P \<and> in_chunk total' P (i div c) i"
        using d0 dP iff [OF d0 dP] by simp
    next
      fix r
      assume "0 \<le> r \<and> r < P \<and> in_chunk total' P r i"
      then show "r = i div c" using iff [of r] by simp
    qed
  qed
  have inside: "0 \<le> i \<and> i < total'" if "0 \<le> r \<and> r < P \<and> in_chunk total' P r i" for r i
  proof -
    from that have "min total' (r * c) \<le> i" and "i < min total' ((r + 1) * c)"
      using ic [of r i] by simp_all
    moreover have "0 \<le> min total' (r * c)"
      using that c0 A(1) by simp
    moreover have "min total' ((r + 1) * c) \<le> total'"
      by simp
    ultimately show ?thesis by linarith
  qed
  from first last each contiguous owner inside show ?thesis
    by blast
qed


theorem partition_geometry_up_to_2_53_witness:
  "(0::int) \<le> 7 \<and> (7::int) \<le> 2 ^ 53 \<and> (1::int) \<le> 3 \<and> (3::int) < 2 ^ 31 \<and>
   get_start 7 3 0 = Inr 0 \<and> get_end 7 3 (3 - 1) = Inr 7 \<and>
   get_start 7 3 (1 + 1) = get_end 7 3 1 \<and>
   (\<exists>!r. 0 \<le> r \<and> r < 3 \<and> in_chunk 7 3 r 5)"
proof -
  have h: "(0::int) \<le> 7" "(7::int) \<le> 2 ^ 53" "(1::int) \<le> 3" "(3::int) < 2 ^ 31"
    by simp_all
  note g = partition_geometry_up_to_2_53 [OF h]
  from g have "get_start 7 3 0 = Inr 0" and "get_end 7 3 (3 - 1) = Inr 7"
    by simp_all
  moreover from g have "\<forall>r. 0 \<le> r \<and> r + 1 < 3 \<longrightarrow> get_start 7 3 (r + 1) = get_end 7 3 r"
    by simp
  from this [THEN spec, of 1] have "get_start 7 3 (1 + 1) = get_end 7 3 1"
    by simp
  moreover from g have "\<forall>i. 0 \<le> i \<and> i < 7 \<longrightarrow> (\<exists>!r. 0 \<le> r \<and> r < 3 \<and> in_chunk 7 3 r i)"
    by simp
  from this [THEN spec, of 5] have "\<exists>!r. 0 \<le> r \<and> r < 3 \<and> in_chunk 7 3 r 5"
    by simp
  ultimately show ?thesis using h by simp
qed

text \<open>
  With \<open>total = 2\<^sup>5\<^sup>3 + 1\<close> and one participant, rank 0 owns \<open>[0, 2\<^sup>5\<^sup>3)\<close>: the last
  index, \<open>2\<^sup>5\<^sup>3\<close>, belongs to no rank.
\<close>

theorem partition_geometry_counterexample:
  "get_start (2 ^ 53 + 1) 1 0 = Inr 0 \<and> get_end (2 ^ 53 + 1) 1 0 = Inr (2 ^ 53) \<and>
   (2 ^ 53 :: int) < 2 ^ 53 + 1 \<and> \<not> in_chunk (2 ^ 53 + 1) 1 0 (2 ^ 53)"
  by code_simp

section \<open>Validation, empty inputs and duplicate keys\<close>

lemma join_no_build_keys: "parallel_join_impl [] keys2 data0 data1 = Inr ([], [], [])"
  by (simp add: parallel_join_impl_def local_join_impl_def)

lemma join_no_probe_keys: "parallel_join_impl keys1 [] data0 data1 = Inr ([], [], [])"
  by (simp add: parallel_join_impl_def local_join_cases hits_def)

lemma hits_out_of_bounds:
  "\<not> list_all (\<lambda>j. j < length data0 \<and> j < length data1) (hits keys1 keys2) \<longleftrightarrow>
   (\<exists>k \<in> set keys1. k \<in> set keys2 \<and>
      \<not> (std_find keys2 k < length data0 \<and> std_find keys2 k < length data1))"
  by (auto simp add: hits_def list_all_iff)

text \<open>
  C6: when the build chunk is empty on every participant, or the probe key chunk is empty
  on every participant, every participant's call of the join returns the empty chunk.
  (The payload vectors play no part: with no probe key nothing is ever read from them.)
\<close>

theorem empty_relation_empty_output:
  "(\<forall>(keys1, keys2, data0, data1) \<in> set inputs. keys1 = []) \<or>
   (\<forall>(keys1, keys2, data0, data1) \<in> set inputs. keys2 = []) \<Longrightarrow>
   \<forall>out \<in> set (spmd_join inputs). out = Inr ([], [], [])"
  by (auto simp add: spmd_join_def join_no_build_keys join_no_probe_keys)

theorem empty_relation_empty_output_witness:
  "spmd_join [([], [3, 4], [1, 2 :: double], [5, 6]), ([], [], [], [])] =
     [Inr ([], [], []), Inr ([], [], [])] \<and>
   spmd_join [([3, 4], [], [], []), ([4 :: int32], [], [] :: double list, [])] =
     [Inr ([], [], []), Inr ([], [], [])]"
proof -
  have a: "\<forall>out \<in> set (spmd_join [([], [3, 4], [1, 2 :: double], [5, 6]), ([], [], [], [])]).
      out = Inr ([], [], [])"
    by (rule empty_relation_empty_output) simp
  have b: "\<forall>out \<in> set (spmd_join [([3, 4], [], [], []), ([4 :: int32], [], [] :: double list, [])]).
      out = Inr ([], [], [])"
    by (rule empty_relation_empty_output) simp
  from a b show ?thesis
    by (simp add: spmd_join_def)
qed

text \<open>
  C7 (as amended): the join has no rejecting outcome and checks no lengths. It reads a
  payload vector out of bounds exactly when the first match position of some build key
  lies past the end of a payload vector; in every other case it returns a chunk, and in
  particular it always returns when both payload vectors are at least as long as the
  probe key vector. (It has no participant count among its arguments.)
\<close>

theorem join_checks_nothing:
  "(parallel_join_impl keys1 keys2 data0 data1 = Inl OutOfBoundsRead \<longleftrightarrow>
      (\<exists>k \<in> set keys1. k \<in> set keys2 \<and>
         \<not> (std_find keys2 k < length data0 \<and> std_find keys2 k < length data1))) \<and>
   (parallel_join_impl keys1 keys2 data0 data1 \<noteq> Inl OutOfBoundsRead \<longrightarrow>
      (\<exists>out. parallel_join_impl keys1 keys2 data0 data1 = Inr out)) \<and>
   (length keys2 \<le> length data0 \<and> length keys2 \<le> length data1 \<longrightarrow>
      (\<exists>out. parallel_join_impl keys1 keys2 data0 data1 = Inr out))"
proof (intro conjI impI)
  show "parallel_join_impl keys1 keys2 data0 data1 = Inl OutOfBoundsRead \<longleftrightarrow>
      (\<exists>k \<in> set keys1. k \<in> set keys2 \<and>
         \<not> (std_find keys2 k < length data0 \<and> std_find keys2 k < length data1))"
    unfolding hits_out_of_bounds [symmetric]
    by (simp add: parallel_join_impl_def local_join_cases)
  show "\<exists>out. parallel_join_impl keys1 keys2 data0 data1 = Inr out"
    if "parallel_join_impl keys1 keys2 data0 data1 \<noteq> Inl OutOfBoundsRead"
    using that by (simp add: parallel_join_impl_def local_join_cases split: if_splits)
  show "\<exists>out. parallel_join_impl keys1 keys2 data0 data1 = Inr out"
    if "length keys2 \<le> length data0 \<and> length keys2 \<le> length data1"
    using that local_join_total [of keys2 data0 data1 keys1]
    by (simp add: parallel_join_impl_def)
qed

theorem join_checks_nothing_witness:
  "length [5 :: int32] \<le> length [1 :: double] \<and> length [5 :: int32] \<le> length [2 :: int32] \<and>
   parallel_join_impl [5, 6] [5] [1 :: double] [2] \<noteq> Inl OutOfBoundsRead \<and>
   (\<exists>out. parallel_join_impl [5, 6] [5] [1 :: double] [2] = Inr out)"
proof -
  have e: "parallel_join_impl [5, 6] [5] [1 :: double] [2] \<noteq> Inl OutOfBoundsRead"
    by (simp add: parallel_join_impl_def local_join_impl_def)
  from join_checks_nothing [of "[5, 6]" "[5]" "[1 :: double]" "[2]"] e
  show ?thesis by simp
qed

text \<open>
  A chunk whose probe key vector is longer than its payload vectors is not rejected: the
  join returns normally when no build key matches, and reads past the end of the payload
  vectors when one does.
\<close>

theorem join_checks_nothing_counterexample:
  "length [5 :: int32] \<noteq> length ([] :: double list) \<and>
   parallel_join_impl [] [5] ([] :: double list) [] = Inr ([], [], []) \<and>
   parallel_join_impl [6] [5] ([] :: double list) [] = Inr ([], [], []) \<and>
   parallel_join_impl [5] [5] ([] :: double list) [] = Inl OutOfBoundsRead"
  by (simp add: parallel_join_impl_def local_join_impl_def)

section \<open>The example run\<close>

lemma div_chunk_example:
  "div_chunk 6 1 = Inr 6" "div_chunk 6 2 = Inr 3" "div_chunk 6 4 = Inr 2"
proof -
  have c: "ceil_div 6 1 = 6" "ceil_div 6 2 = 3" "ceil_div 6 4 = 2"
    by code_simp+
  show "div_chunk 6 1 = Inr 6" "div_chunk 6 2 = Inr 3" "div_chunk 6 4 = Inr 2"
    using div_chunk_exact [of 6 1] div_chunk_exact [of 6 2] div_chunk_exact [of 6 4]
    by (simp_all add: c)
qed

lemmas example_defs =
  example_run_def main_join_def generate_example_inputs_def rank_chunk_def get_start_def
  get_end_def div_chunk_example vector_range_def in_int64_def in_int32_def
  keys1_global_def keys2_global_def data0_global_def data1_global_def
  parallel_join_impl_def local_join_impl_def

lemma example_ranks: "[0..<4] = [0, 1, 2, 3]" "[0..<2] = [0, 1]" "[0..<1] = [0]"
  by (simp_all add: upt_rec)

lemma example_run_1: "example_run 1 = [Inr ([0, 1, 1, 2, 1, 0], [2, 1, 1, 4, 1, 2], [1, 4, 4, 3, 4, 1])]"
  by (simp add: example_defs example_ranks)

lemma example_run_2: "example_run 2 = [Inr ([0, 1, 1], [2, 1, 1], [1, 4, 4]), Inr ([2], [4], [3])]"
  by (simp add: example_defs example_ranks)

lemma example_run_4: "example_run 4 =
    [Inr ([0, 1], [2, 1], [1, 4]), Inr ([2], [4], [3]), Inr ([], [], []), Inr ([], [], [])]"
  by (simp add: example_defs example_ranks)

text \<open>
  C1 (the code departs from it): on a single participant, build key 1 occurs once and
  probe key 1 occurs twice, so the join should emit \<open>1 * 2 = 2\<close> rows with key 1. The
  code emits one, the row of the first matching probe position.
\<close>

theorem duplicate_probe_key_matched_once:
  "global_rows (spmd_join [([1], [1, 1], [10, 20 :: double], [7, 8])]) = Inr [(1, 10, 7)] \<and>
   count_list [1 :: int32] 1 * count_list [1, 1 :: int32] 1 = 2"
  by (simp add: spmd_join_def parallel_join_impl_def local_join_impl_def)

text \<open>
  C2 (the code departs from it): the example relations, cut by \<open>generate_example_inputs\<close>
  for 1, 2 and 4 participants, give 6, 4 and 3 output rows: each rank joins only the
  rows it holds.
\<close>

theorem example_output_depends_on_partition:
  "global_rows (example_run 1) =
     Inr [(0, 2, 1), (1, 1, 4), (1, 1, 4), (2, 4, 3), (1, 1, 4), (0, 2, 1)] \<and>
   global_rows (example_run 2) = Inr [(0, 2, 1), (1, 1, 4), (1, 1, 4), (2, 4, 3)] \<and>
   global_rows (example_run 4) = Inr [(0, 2, 1), (1, 1, 4), (2, 4, 3)] \<and>
   map_sum id mset (global_rows (example_run 1)) \<noteq> map_sum id mset (global_rows (example_run 2)) \<and>
   map_sum id mset (global_rows (example_run 2)) \<noteq> map_sum id mset (global_rows (example_run 4))"
  unfolding example_run_1 example_run_2 example_run_4 by simp

text \<open>
  C3 (the code departs from it): with two participants the worked example yields four
  rows, one with key 0 and two with key 1, not the six rows of the expected multiset.
  With one participant the output is the expected multiset.
\<close>

theorem example_output_two_ranks:
  "example_run 2 = [Inr ([0, 1, 1], [2, 1, 1], [1, 4, 4]), Inr ([2], [4], [3])] \<and>
   map_sum id mset (global_rows (example_run 2)) \<noteq>
     Inr {#(0, 2, 1), (0, 2, 1), (1, 1, 4), (1, 1, 4), (1, 1, 4), (2, 4, 3)#} \<and>
   map_sum id mset (global_rows (example_run 1)) =
     Inr {#(0, 2, 1), (0, 2, 1), (1, 1, 4), (1, 1, 4), (1, 1, 4), (2, 4, 3)#}"
  unfolding example_run_1 example_run_2 by simp

end
